theory Spec2Isabelle
  imports Main "HOL-Library.Word"
begin

section \<open>Protocol parameters\<close>

text \<open>
  The per-connection part of \<^verbatim>\<open>main\<close> in \<^verbatim>\<open>server.c\<close>: the one-byte-at-a-time
  read loop, the NUL termination of the buffer and the response path. A byte is an
  8-bit word; the two terminators are \<^verbatim>\<open>'\n'\<close> (10) and \<^verbatim>\<open>'\r'\<close> (13).
\<close>

type_synonym byte = "8 word"

definition MAX_MSG_LEN :: nat where
  "MAX_MSG_LEN = 20"

definition bytes_of :: "string \<Rightarrow> byte list" where
  "bytes_of s = map (\<lambda>c. of_nat (of_char c)) s"

text \<open>\<^verbatim>\<open>const char *err = "ERR too long\n"\<close>; it is sent with length \<^verbatim>\<open>strlen(err)\<close>.\<close>

definition err_msg :: "byte list" where
  "err_msg = bytes_of ''ERR too long\<newline>''"

section \<open>The socket as the handler sees it\<close>

text \<open>
  \<^verbatim>\<open>recv(cfd, &ch, 1, 0)\<close> returns 0 (orderly shutdown), a negative value with
  \<^verbatim>\<open>errno\<close> set, or 1 with the byte in \<^verbatim>\<open>ch\<close>. \<^verbatim>\<open>send\<close> returns a negative value
  with \<^verbatim>\<open>errno\<close> set, or the number of bytes it accepted. The handler tells apart
  only \<^verbatim>\<open>EINTR\<close> and \<^verbatim>\<open>EPIPE\<close>; every other code is \<open>Errno k\<close>.

  The environment is the list of results the successive \<^verbatim>\<open>recv\<close> calls return and
  the list of results the successive \<^verbatim>\<open>send\<close> calls return. Both calls block: when
  the list is used up the call never returns, which is the value \<open>Blocked\<close>.
\<close>

datatype errno = EINTR | EPIPE | Errno nat

datatype recv_result = Recv_eof | Recv_err errno | Recv_byte byte

datatype send_result = Send_err errno | Sent nat

datatype halt = Blocked | OutOfBounds | UninitRead

section \<open>Per-connection state\<close>

text \<open>
  \<^verbatim>\<open>char buf[MAX_MSG_LEN + 1]; ssize_t total = 0; int too_long = 0;\<close>
  The buffer is not initialised: a cell is \<open>None\<close> until it is written. The count
  \<^verbatim>\<open>total\<close> starts at 0 and is only ever incremented under the guard
  \<^verbatim>\<open>total < MAX_MSG_LEN\<close>, so it is a natural number here.
\<close>

record conn =
  buf :: "byte option list"
  total_cnt :: nat
  too_long :: bool

definition conn_init :: conn where
  "conn_init = \<lparr>buf = replicate (MAX_MSG_LEN + 1) None, total_cnt = 0, too_long = False\<rparr>"

text \<open>An array write \<^verbatim>\<open>b[i] = v\<close>; outside the array it is a fault.\<close>

definition store :: "byte option list \<Rightarrow> nat \<Rightarrow> byte \<Rightarrow> halt + byte option list" where
  "store b i v = (if i < length b then Inr (b[i := Some v]) else Inl OutOfBounds)"

text \<open>Reading the first \<open>n\<close> cells of an array, as \<^verbatim>\<open>send(cfd, buf, total, 0)\<close> does.\<close>

fun load :: "byte option list \<Rightarrow> nat \<Rightarrow> halt + byte list" where
  "load b 0 = Inr []"
| "load [] (Suc n) = Inl OutOfBounds"
| "load (None # b) (Suc n) = Inl UninitRead"
| "load (Some v # b) (Suc n) =
     (case load b n of Inl h \<Rightarrow> Inl h | Inr vs \<Rightarrow> Inr (v # vs))"

section \<open>The read loop\<close>

definition is_terminator :: "byte \<Rightarrow> bool" where
  "is_terminator ch = (ch = 0x0A \<or> ch = 0x0D)"

datatype flow = Continue conn | Break conn

text \<open>One iteration of the inner \<^verbatim>\<open>for (;;)\<close>, given what \<^verbatim>\<open>recv\<close> returned.\<close>

fun loop_body :: "recv_result \<Rightarrow> conn \<Rightarrow> halt + flow" where
  "loop_body Recv_eof c = Inr (Break c)"
| "loop_body (Recv_err e) c =
     (if e = EINTR then Inr (Continue c) else Inr (Break c))"
| "loop_body (Recv_byte ch) c =
     (if is_terminator ch then Inr (Break c)
      else if total_cnt c < MAX_MSG_LEN then
        (case store (buf c) (total_cnt c) ch of
           Inl h \<Rightarrow> Inl h
         | Inr b \<Rightarrow> Inr (Continue (c\<lparr>buf := b, total_cnt := total_cnt c + 1\<rparr>)))
      else Inr (Continue (c\<lparr>too_long := True\<rparr>)))"

text \<open>
  The loop: each iteration takes one \<^verbatim>\<open>recv\<close> result. It returns the state at the
  \<^verbatim>\<open>break\<close> together with the results not yet consumed.
\<close>

fun read_loop :: "recv_result list \<Rightarrow> conn \<Rightarrow> halt + conn \<times> recv_result list" where
  "read_loop [] c = Inl Blocked"
| "read_loop (r # rs) c =
     (case loop_body r c of
        Inl h \<Rightarrow> Inl h
      | Inr (Continue c') \<Rightarrow> read_loop rs c'
      | Inr (Break c') \<Rightarrow> Inr (c', rs))"

text \<open>The states the loop passes through: at the head of each iteration and at the exit.\<close>

fun loop_states :: "recv_result list \<Rightarrow> conn \<Rightarrow> conn list" where
  "loop_states [] c = [c]"
| "loop_states (r # rs) c =
     c # (case loop_body r c of
            Inl h \<Rightarrow> []
          | Inr (Continue c') \<Rightarrow> loop_states rs c'
          | Inr (Break c') \<Rightarrow> [c'])"

text \<open>A \<^verbatim>\<open>recv\<close> result after which the loop goes round again.\<close>

fun keeps_reading :: "recv_result \<Rightarrow> bool" where
  "keeps_reading Recv_eof = False"
| "keeps_reading (Recv_err e) = (e = EINTR)"
| "keeps_reading (Recv_byte ch) = (\<not> is_terminator ch)"

section \<open>The response path\<close>

text \<open>The bytes of \<open>data\<close> that reach the connection when \<^verbatim>\<open>send\<close> returns \<open>wn\<close>.\<close>

fun delivered :: "send_result \<Rightarrow> byte list \<Rightarrow> byte list" where
  "delivered (Send_err e) data = []"
| "delivered (Sent k) data = take k data"

text \<open>\<^verbatim>\<open>wn < 0 && errno != EPIPE\<close>\<close>

fun send_failed :: "send_result \<Rightarrow> bool" where
  "send_failed (Send_err e) = (e \<noteq> EPIPE)"
| "send_failed (Sent k) = False"

definition send_op ::
  "byte list \<Rightarrow> send_result list \<Rightarrow> halt + send_result \<times> byte list \<times> send_result list" where
  "send_op data ws =
     (case ws of [] \<Rightarrow> Inl Blocked | wn # ws' \<Rightarrow> Inr (wn, delivered wn data, ws'))"

text \<open>
  The \<^verbatim>\<open>if (too_long) ... else if (total > 0) ... else ...\<close> chain. The result is the
  byte sequence written to the connection. The diagnostics (\<^verbatim>\<open>printf\<close>,
  \<^verbatim>\<open>perror\<close>) go to the process's standard streams and are left out.
\<close>

definition respond :: "conn \<Rightarrow> send_result list \<Rightarrow> halt + byte list" where
  "respond c ws =
     (if too_long c then
        (case send_op err_msg ws of
           Inl h \<Rightarrow> Inl h
         | Inr (wn, out, ws') \<Rightarrow> Inr out)
      else if total_cnt c > 0 then
        (case load (buf c) (total_cnt c) of
           Inl h \<Rightarrow> Inl h
         | Inr payload \<Rightarrow>
             (case send_op payload ws of
                Inl h \<Rightarrow> Inl h
              | Inr (wn, out, ws') \<Rightarrow>
                  if send_failed wn then Inr out
                  else (case send_op [0x0A] ws' of
                          Inl h \<Rightarrow> Inl h
                        | Inr (wn2, out2, ws'') \<Rightarrow> Inr (out @ out2))))
      else Inr [])"

section \<open>One connection\<close>

record outcome =
  final :: conn
  wire :: "byte list"
  unread :: "recv_result list"

text \<open>
  From the declaration of \<^verbatim>\<open>buf\<close> to \<^verbatim>\<open>close(cfd)\<close>: the read loop, then
  \<^verbatim>\<open>buf[total] = '\0'\<close>, then the response.
\<close>

definition handle_conn :: "recv_result list \<Rightarrow> send_result list \<Rightarrow> halt + outcome" where
  "handle_conn rs ws =
     (case read_loop rs conn_init of
        Inl h \<Rightarrow> Inl h
      | Inr (c, rs') \<Rightarrow>
          (case store (buf c) (total_cnt c) 0 of
             Inl h \<Rightarrow> Inl h
           | Inr b \<Rightarrow>
               (case respond (c\<lparr>buf := b\<rparr>) ws of
                  Inl h \<Rightarrow> Inl h
                | Inr out \<Rightarrow> Inr \<lparr>final = c\<lparr>buf := b\<rparr>, wire = out, unread = rs'\<rparr>)))"

text \<open>What the peer receives: the bytes written to the connection, if the handler returns.\<close>

definition response :: "recv_result list \<Rightarrow> send_result list \<Rightarrow> halt + byte list" where
  "response rs ws = (case handle_conn rs ws of Inl h \<Rightarrow> Inl h | Inr out \<Rightarrow> Inr (wire out))"

section \<open>Auxiliary notions for the proofs\<close>

text \<open>
  The state in which the bytes \<open>xs\<close> have been stored from index 0 and the rest of the
  buffer is untouched, and the same state after the NUL has been written behind them.
\<close>

definition filled :: "byte list \<Rightarrow> bool \<Rightarrow> conn" where
  "filled xs f =
     \<lparr>buf = map Some xs @ replicate (MAX_MSG_LEN + 1 - length xs) None,
      total_cnt = length xs, too_long = f\<rparr>"

definition closed :: "byte list \<Rightarrow> bool \<Rightarrow> conn" where
  "closed xs f =
     \<lparr>buf = map Some xs @ Some 0 # replicate (MAX_MSG_LEN - length xs) None,
      total_cnt = length xs, too_long = f\<rparr>"

text \<open>The number of cells of the buffer that hold a byte.\<close>

definition stored :: "byte option list \<Rightarrow> nat" where
  "stored b = length (filter (\<lambda>x. x \<noteq> None) b)"

section \<open>Lemmas about the read loop and the response path\<close>

lemma loop_body_filled_store:
  assumes "\<not> is_terminator ch" "length xs < MAX_MSG_LEN"
  shows "loop_body (Recv_byte ch) (filled xs f) = Inr (Continue (filled (xs @ [ch]) f))"
proof -
  have "MAX_MSG_LEN + 1 - length xs = Suc (MAX_MSG_LEN - length xs)"
    using assms(2) by simp
  then show ?thesis
    using assms by (simp add: filled_def store_def list_update_append)
qed

lemma loop_body_filled_full:
  assumes "\<not> is_terminator ch" "length xs = MAX_MSG_LEN"
  shows "loop_body (Recv_byte ch) (filled xs f) = Inr (Continue (filled xs True))"
  using assms by (simp add: filled_def)

lemma conn_init_filled: "conn_init = filled [] False"
  by (simp add: conn_init_def filled_def)

lemma read_loop_content:
  assumes "\<forall>b\<in>set cs. \<not> is_terminator b" "length xs \<le> MAX_MSG_LEN"
  shows "read_loop (map Recv_byte cs @ rs) (filled xs f) =
         read_loop rs (filled (take MAX_MSG_LEN (xs @ cs)) (f \<or> MAX_MSG_LEN < length xs + length cs))"
  using assms
proof (induction cs arbitrary: xs f)
  case Nil
  then show ?case by simp
next
  case (Cons ch cs)
  show ?case
  proof (cases "length xs < MAX_MSG_LEN")
    case True
    then have "read_loop (map Recv_byte (ch # cs) @ rs) (filled xs f) =
               read_loop (map Recv_byte cs @ rs) (filled (xs @ [ch]) f)"
      using Cons.prems by (simp add: loop_body_filled_store del: loop_body.simps)
    also have "\<dots> = read_loop rs (filled (take MAX_MSG_LEN ((xs @ [ch]) @ cs))
                 (f \<or> MAX_MSG_LEN < length (xs @ [ch]) + length cs))"
      using Cons.prems True by (intro Cons.IH) auto
    finally show ?thesis by simp
  next
    case False
    then have full: "length xs = MAX_MSG_LEN" using Cons.prems by simp
    then have "read_loop (map Recv_byte (ch # cs) @ rs) (filled xs f) =
               read_loop (map Recv_byte cs @ rs) (filled xs True)"
      using Cons.prems by (simp add: loop_body_filled_full del: loop_body.simps)
    also have "\<dots> = read_loop rs (filled (take MAX_MSG_LEN (xs @ cs))
                 (True \<or> MAX_MSG_LEN < length xs + length cs))"
      using Cons.prems full by (intro Cons.IH) auto
    finally show ?thesis using full by simp
  qed
qed

lemma store_nul_filled:
  assumes "length xs \<le> MAX_MSG_LEN"
  shows "store (buf (filled xs f)) (total_cnt (filled xs f)) 0 = Inr (buf (closed xs f))"
proof -
  have "MAX_MSG_LEN + 1 - length xs = Suc (MAX_MSG_LEN - length xs)"
    using assms by simp
  then show ?thesis
    by (simp add: filled_def closed_def store_def list_update_append)
qed

lemma load_prefix: "load (map Some xs @ b) (length xs) = Inr xs"
  by (induction xs) auto


lemma filled_closed_buf: "(filled xs f)\<lparr>buf := buf (closed xs f)\<rparr> = closed xs f"
  by (simp add: filled_def closed_def)

lemma loop_body_breaks: "\<not> keeps_reading r \<Longrightarrow> loop_body r c = Inr (Break c)"
  by (cases r) auto

lemma loop_body_keeps:
  assumes "keeps_reading r" "length xs \<le> MAX_MSG_LEN"
  shows "\<exists>ys g. length ys \<le> MAX_MSG_LEN \<and> loop_body r (filled xs f) = Inr (Continue (filled ys g))"
proof (cases r)
  case Recv_eof
  with assms show ?thesis by simp
next
  case (Recv_err e)
  with assms show ?thesis by auto
next
  case (Recv_byte ch)
  with assms have nt: "\<not> is_terminator ch" by simp
  show ?thesis
  proof (cases "length xs < MAX_MSG_LEN")
    case True
    then have "length (xs @ [ch]) \<le> MAX_MSG_LEN" by simp
    with loop_body_filled_store [OF nt True, of f] Recv_byte show ?thesis by blast
  next
    case False
    with assms have "length xs = MAX_MSG_LEN" by simp
    with loop_body_filled_full [OF nt this, of f] Recv_byte assms(2) show ?thesis by blast
  qed
qed

lemma read_loop_first_break:
  assumes "\<forall>r\<in>set pre. keeps_reading r" "\<not> keeps_reading r0" "length xs \<le> MAX_MSG_LEN"
  shows "\<exists>ys g. length ys \<le> MAX_MSG_LEN \<and>
           read_loop (pre @ r0 # rest) (filled xs f) = Inr (filled ys g, rest)"
  using assms
proof (induction pre arbitrary: xs f)
  case Nil
  then show ?case by (auto simp add: loop_body_breaks simp del: loop_body.simps)
next
  case (Cons r pre)
  then have "keeps_reading r" by simp
  from loop_body_keeps [OF this Cons.prems(3), of f]
  obtain ys g where ys: "length ys \<le> MAX_MSG_LEN"
    and step: "loop_body r (filled xs f) = Inr (Continue (filled ys g))" by blast
  from Cons.IH [OF _ Cons.prems(2) ys, of g] Cons.prems(1)
  obtain zs h where "length zs \<le> MAX_MSG_LEN"
    "read_loop (pre @ r0 # rest) (filled ys g) = Inr (filled zs h, rest)" by auto
  with step show ?case by (auto simp del: loop_body.simps)
qed

lemma loop_body_filled_total:
  assumes "length xs \<le> MAX_MSG_LEN"
  shows "\<exists>ys g. length ys \<le> MAX_MSG_LEN \<and>
           (loop_body r (filled xs f) = Inr (Continue (filled ys g)) \<or>
            loop_body r (filled xs f) = Inr (Break (filled ys g)))"
proof (cases "keeps_reading r")
  case True
  from loop_body_keeps [OF True assms, of f] show ?thesis by blast
next
  case False
  from loop_body_breaks [OF False, of "filled xs f"] assms show ?thesis by blast
qed

lemma loop_states_filled:
  assumes "length xs \<le> MAX_MSG_LEN"
  shows "\<forall>c\<in>set (loop_states rs (filled xs f)). \<exists>ys g. length ys \<le> MAX_MSG_LEN \<and> c = filled ys g"
  using assms
proof (induction rs arbitrary: xs f)
  case Nil
  then show ?case by auto
next
  case (Cons r rs)
  from loop_body_filled_total [OF Cons.prems, of r f]
  obtain ys g where ys: "length ys \<le> MAX_MSG_LEN"
    and step: "loop_body r (filled xs f) = Inr (Continue (filled ys g)) \<or>
               loop_body r (filled xs f) = Inr (Break (filled ys g))" by blast
  from step show ?case
  proof
    assume "loop_body r (filled xs f) = Inr (Continue (filled ys g))"
    with Cons.IH [OF ys, of g] Cons.prems show ?thesis
      by (auto simp del: loop_body.simps)
  next
    assume "loop_body r (filled xs f) = Inr (Break (filled ys g))"
    with ys Cons.prems show ?thesis by (auto simp del: loop_body.simps)
  qed
qed

lemma read_loop_filled:
  assumes "length xs \<le> MAX_MSG_LEN"
  shows "read_loop rs (filled xs f) = Inl Blocked \<or>
         (\<exists>ys g rs'. length ys \<le> MAX_MSG_LEN \<and> read_loop rs (filled xs f) = Inr (filled ys g, rs'))"
  using assms
proof (induction rs arbitrary: xs f)
  case Nil
  then show ?case by simp
next
  case (Cons r rs)
  from loop_body_filled_total [OF Cons.prems, of r f]
  obtain ys g where ys: "length ys \<le> MAX_MSG_LEN"
    and step: "loop_body r (filled xs f) = Inr (Continue (filled ys g)) \<or>
               loop_body r (filled xs f) = Inr (Break (filled ys g))" by blast
  from step show ?case
  proof
    assume "loop_body r (filled xs f) = Inr (Continue (filled ys g))"
    with Cons.IH [OF ys, of g] show ?thesis by (auto simp del: loop_body.simps)
  next
    assume "loop_body r (filled xs f) = Inr (Break (filled ys g))"
    with ys show ?thesis by (auto simp del: loop_body.simps)
  qed
qed

lemma stored_filled: "stored (buf (filled xs f)) = length xs"
  by (simp add: stored_def filled_def)

lemma filled_last_cell:
  "length xs \<le> MAX_MSG_LEN \<Longrightarrow> buf (filled xs f) ! MAX_MSG_LEN = None"
  by (simp add: filled_def nth_append)

lemma load_closed: "load (buf (closed xs f)) (total_cnt (closed xs f)) = Inr xs"
  by (simp add: closed_def load_prefix)

lemma respond_overflow: "respond (closed xs True) (w # ws) = Inr (delivered w err_msg)"
  by (simp add: respond_def send_op_def closed_def)

lemma respond_echo:
  "xs \<noteq> [] \<Longrightarrow> respond (closed xs False) (w1 # w2 # ws) =
     Inr (if send_failed w1 then delivered w1 xs else delivered w1 xs @ delivered w2 [0x0A])"
  using load_closed [of xs False] by (simp add: respond_def send_op_def closed_def)

lemma respond_empty: "respond (closed [] False) ws = Inr []"
  by (simp add: respond_def closed_def)

lemma respond_closed_halt: "respond (closed xs f) ws = Inl h \<Longrightarrow> h = Blocked"
  using load_closed [of xs f]
  by (auto simp add: respond_def send_op_def closed_def split: if_splits list.splits)

lemma handle_conn_after_loop:
  assumes "read_loop rs conn_init = Inr (filled xs f, rs')" "length xs \<le> MAX_MSG_LEN"
  shows "handle_conn rs ws =
           (case respond (closed xs f) ws of
              Inl h \<Rightarrow> Inl h
            | Inr out \<Rightarrow> Inr \<lparr>final = closed xs f, wire = out, unread = rs'\<rparr>)"
  using assms
  by (simp add: handle_conn_def store_nul_filled filled_closed_buf split: sum.splits)

lemma handle_conn_content:
  assumes "\<forall>b\<in>set cs. \<not> is_terminator b" "\<not> keeps_reading r"
  shows "handle_conn (map Recv_byte cs @ r # rest) ws =
           (case respond (closed (take MAX_MSG_LEN cs) (MAX_MSG_LEN < length cs)) ws of
              Inl h \<Rightarrow> Inl h
            | Inr out \<Rightarrow>
                Inr \<lparr>final = closed (take MAX_MSG_LEN cs) (MAX_MSG_LEN < length cs),
                     wire = out, unread = rest\<rparr>)"
proof -
  have "read_loop (map Recv_byte cs @ r # rest) conn_init =
        read_loop (r # rest) (filled (take MAX_MSG_LEN cs) (MAX_MSG_LEN < length cs))"
    using read_loop_content [OF assms(1), of "[]" "r # rest" False]
    by (simp add: conn_init_filled)
  also have "\<dots> = Inr (filled (take MAX_MSG_LEN cs) (MAX_MSG_LEN < length cs), rest)"
    using assms(2) by (simp add: loop_body_breaks del: loop_body.simps)
  finally show ?thesis
    by (rule handle_conn_after_loop) simp
qed

lemma loop_body_keeps_no_break:
  "keeps_reading r \<Longrightarrow> loop_body r c \<noteq> Inr (Break c')"
  by (cases r) (auto split: sum.splits)

lemma read_loop_same_break:
  assumes "\<forall>r\<in>set pre. keeps_reading r" "\<not> keeps_reading r1" "\<not> keeps_reading r2"
  shows "read_loop (pre @ r1 # rest) c = read_loop (pre @ r2 # rest) c"
  using assms(1)
proof (induction pre arbitrary: c)
  case Nil
  from assms(2,3) show ?case by (simp add: loop_body_breaks del: loop_body.simps)
next
  case (Cons r pre)
  then show ?case
    by (simp add: loop_body_keeps_no_break split: sum.splits flow.splits del: loop_body.simps)
qed

lemma read_loop_skip_eintr:
  assumes "\<forall>r\<in>set pre. keeps_reading r"
  shows "read_loop (pre @ Recv_err EINTR # rs) c = read_loop (pre @ rs) c"
  using assms
proof (induction pre arbitrary: c)
  case Nil
  show ?case by simp
next
  case (Cons r pre)
  then show ?case
    by (simp add: loop_body_keeps_no_break split: sum.splits flow.splits del: loop_body.simps)
qed

lemma response_content:
  assumes "\<forall>b\<in>set cs. \<not> is_terminator b" "\<not> keeps_reading r"
  shows "response (map Recv_byte cs @ r # rest) ws =
           respond (closed (take MAX_MSG_LEN cs) (MAX_MSG_LEN < length cs)) ws"
  by (simp add: response_def handle_conn_content [OF assms] split: sum.splits)

lemma response_echo:
  assumes "cs \<noteq> []" "length cs \<le> MAX_MSG_LEN" "\<forall>b\<in>set cs. \<not> is_terminator b"
    "\<not> keeps_reading r" "length cs \<le> k1" "1 \<le> k2"
  shows "response (map Recv_byte cs @ r # rest) (Sent k1 # Sent k2 # ws) = Inr (cs @ [0x0A])"
  using assms by (simp add: response_content respond_echo)

lemma response_overflow:
  assumes "MAX_MSG_LEN < length cs" "\<forall>b\<in>set cs. \<not> is_terminator b" "\<not> keeps_reading r"
  shows "response (map Recv_byte cs @ r # rest) (w # ws) = Inr (delivered w err_msg)"
  using assms by (simp add: response_content respond_overflow)

lemma response_no_content:
  assumes "\<not> keeps_reading r"
  shows "response (r # rest) ws = Inr []"
  using response_content [of "[]" r rest ws] assms
  by (simp add: respond_empty MAX_MSG_LEN_def)

lemma handle_conn_same_break:
  assumes "\<forall>r\<in>set pre. keeps_reading r" "\<not> keeps_reading r1" "\<not> keeps_reading r2"
  shows "handle_conn (pre @ r1 # rest) ws = handle_conn (pre @ r2 # rest) ws"
  by (simp add: handle_conn_def read_loop_same_break [OF assms])

lemma loop_states_bounded:
  assumes "c \<in> set (loop_states rs conn_init)"
  shows "total_cnt c \<le> MAX_MSG_LEN \<and> stored (buf c) = total_cnt c \<and>
         length (buf c) = MAX_MSG_LEN + 1 \<and> buf c ! MAX_MSG_LEN = None"
proof -
  from loop_states_filled [of "[]" rs False] assms
  obtain ys g where ys: "length ys \<le> MAX_MSG_LEN" and c: "c = filled ys g"
    by (auto simp add: conn_init_filled)
  have "total_cnt (filled ys g) = length ys" by (simp add: filled_def)
  moreover have "length (buf (filled ys g)) = MAX_MSG_LEN + 1"
    using ys by (simp add: filled_def)
  ultimately show ?thesis
    using ys c by (simp add: stored_filled filled_last_cell)
qed

lemma loop_body_at_bound:
  assumes "\<not> is_terminator ch" "total_cnt c = MAX_MSG_LEN"
  shows "loop_body (Recv_byte ch) c = Inr (Continue (c\<lparr>too_long := True\<rparr>))"
  using assms by simp

lemma loop_states_first_mem: "c \<in> set (loop_states rs c)"
  by (cases rs) simp_all

lemma loop_states_last_mem: "last (loop_states rs c) \<in> set (loop_states rs c)"
  by (rule last_in_set) (cases rs; simp)

lemma loop_states_content_last:
  assumes "\<forall>b\<in>set cs. \<not> is_terminator b" "length xs \<le> MAX_MSG_LEN"
  shows "last (loop_states (map Recv_byte cs) (filled xs f)) =
         filled (take MAX_MSG_LEN (xs @ cs)) (f \<or> MAX_MSG_LEN < length xs + length cs)"
  using assms
proof (induction cs arbitrary: xs f)
  case Nil
  then show ?case by simp
next
  case (Cons ch cs)
  have nonempty: "\<And>rs c. loop_states rs c \<noteq> []"
    subgoal for rs c by (cases rs) simp_all
    done
  show ?case
  proof (cases "length xs < MAX_MSG_LEN")
    case True
    then have "last (loop_states (map Recv_byte (ch # cs)) (filled xs f)) =
               last (loop_states (map Recv_byte cs) (filled (xs @ [ch]) f))"
      using Cons.prems by (simp add: loop_body_filled_store nonempty del: loop_body.simps)
    also have "\<dots> = filled (take MAX_MSG_LEN ((xs @ [ch]) @ cs))
                 (f \<or> MAX_MSG_LEN < length (xs @ [ch]) + length cs)"
      using Cons.prems True by (intro Cons.IH) auto
    finally show ?thesis by simp
  next
    case False
    then have full: "length xs = MAX_MSG_LEN" using Cons.prems by simp
    then have "last (loop_states (map Recv_byte (ch # cs)) (filled xs f)) =
               last (loop_states (map Recv_byte cs) (filled xs True))"
      using Cons.prems by (simp add: loop_body_filled_full nonempty del: loop_body.simps)
    also have "\<dots> = filled (take MAX_MSG_LEN (xs @ cs))
                 (True \<or> MAX_MSG_LEN < length xs + length cs)"
      using Cons.prems full by (intro Cons.IH) auto
    finally show ?thesis using full by simp
  qed
qed

lemma err_msg_bytes:
  "err_msg = [0x45, 0x52, 0x52, 0x20, 0x74, 0x6F, 0x6F, 0x20, 0x6C, 0x6F, 0x6E, 0x67, 0x0A]"
  by (simp add: err_msg_def bytes_of_def)

section \<open>Echo of a message within the bound\<close>

text \<open>
  C1 (amended). For every content \<open>C\<close> of 1 to 20 bytes (20 included), none of them
  \<^verbatim>\<open>'\n'\<close> or \<^verbatim>\<open>'\r'\<close>: when the input stream is \<open>C\<close> followed by a terminator byte
  and the two \<^verbatim>\<open>send\<close> calls accept what they are given, the bytes written to the
  connection are exactly \<open>C\<close> followed by a single \<^verbatim>\<open>'\n'\<close>. For the empty content
  followed by a terminator byte the handler writes nothing, whatever the \<^verbatim>\<open>send\<close>
  calls would return.
\<close>

theorem echo_within_bound:
  assumes "is_terminator t"
  shows "(C \<noteq> [] \<and> length C \<le> MAX_MSG_LEN \<and> (\<forall>b\<in>set C. \<not> is_terminator b) \<and>
            length C \<le> k1 \<and> 1 \<le> k2 \<longrightarrow>
            response (map Recv_byte C @ Recv_byte t # rest) (Sent k1 # Sent k2 # ws) =
              Inr (C @ [0x0A])) \<and>
         response (map Recv_byte [] @ Recv_byte t # rest) ws' = Inr []"
proof -
  have brk: "\<not> keeps_reading (Recv_byte t)" using assms by simp
  have "response (Recv_byte t # rest) ws' = Inr []"
    using brk by (rule response_no_content)
  then show ?thesis
    using brk by (simp add: response_echo del: keeps_reading.simps)
qed

text \<open>
  The theorem at the boundary, 20 content bytes and a newline with one more byte
  waiting behind it, and at the empty content.
\<close>

theorem echo_within_bound_witness:
  "response (map Recv_byte (replicate 20 0x61) @ Recv_byte 0x0A # [Recv_byte 0x21]) (Sent 20 # Sent 1 # [])
     = Inr (replicate 20 0x61 @ [0x0A]) \<and>
   response (map Recv_byte [] @ Recv_byte 0x0A # [Recv_byte 0x21]) [Sent 0, Sent 1] = Inr []"
  using echo_within_bound [of "0x0A" "replicate 20 0x61" 20 1 "[Recv_byte 0x21]" "[]" "[Sent 0, Sent 1]"]
  by (simp add: MAX_MSG_LEN_def is_terminator_def)

text \<open>
  C1 as stated also covers the empty content. There the handler reaches the last branch
  of the response path (\<^verbatim>\<open>total > 0\<close> is false) and writes nothing, not a lone
  \<^verbatim>\<open>'\n'\<close>.
\<close>

theorem echo_empty_content_counterexample:
  "response (map Recv_byte [] @ [Recv_byte 0x0D]) [Sent 0, Sent 1] \<noteq> Inr ([] @ [0x0A])"
  using response_no_content [of "Recv_byte 0x0D" "[]" "[Sent 0, Sent 1]"]
  by (simp add: is_terminator_def)

section \<open>Overlong messages\<close>

text \<open>
  C2. For every content \<open>C\<close> of more than 20 bytes (21 included), none of them a
  terminator: when the input stream is \<open>C\<close> followed by a terminator byte, the handler
  makes one \<^verbatim>\<open>send\<close> call, of the literal \<^verbatim>\<open>"ERR too long\n"\<close>. When that call accepts
  the whole message the response is exactly the 13 bytes of that literal, spelled out
  below; whatever the call returns, the bytes on the connection are the part of the
  literal it delivered, so no accumulated content byte is ever written.
\<close>

theorem overlong_yields_error:
  assumes "MAX_MSG_LEN < length C" "\<forall>b\<in>set C. \<not> is_terminator b" "is_terminator t"
  shows "(13 \<le> k \<longrightarrow>
            response (map Recv_byte C @ Recv_byte t # rest) (Sent k # ws) =
              Inr [0x45, 0x52, 0x52, 0x20, 0x74, 0x6F, 0x6F, 0x20, 0x6C, 0x6F, 0x6E, 0x67, 0x0A]) \<and>
         response (map Recv_byte C @ Recv_byte t # rest) (w # ws) =
           Inr (delivered w [0x45, 0x52, 0x52, 0x20, 0x74, 0x6F, 0x6F, 0x20, 0x6C, 0x6F, 0x6E, 0x67, 0x0A]) \<and>
         err_msg = [0x45, 0x52, 0x52, 0x20, 0x74, 0x6F, 0x6F, 0x20, 0x6C, 0x6F, 0x6E, 0x67, 0x0A]"
  using assms by (simp add: response_overflow err_msg_bytes)

theorem overlong_yields_error_witness:
  "response (map Recv_byte (replicate 21 0x61) @ Recv_byte 0x0A # []) (Sent 13 # []) =
     Inr [0x45, 0x52, 0x52, 0x20, 0x74, 0x6F, 0x6F, 0x20, 0x6C, 0x6F, 0x6E, 0x67, 0x0A] \<and>
   response (map Recv_byte (replicate 21 0x61) @ Recv_byte 0x0A # []) (Send_err EPIPE # []) = Inr []"
  using overlong_yields_error [of "replicate 21 0x61" "0x0A" 13 "[]" "[]" "Sent 13"]
    overlong_yields_error [of "replicate 21 0x61" "0x0A" 13 "[]" "[]" "Send_err EPIPE"]
  by (simp add: MAX_MSG_LEN_def is_terminator_def)

section \<open>A lone terminator\<close>

text \<open>
  C3 (amended). When the input stream starts with the terminator byte \<^verbatim>\<open>'\n'\<close>, with no
  content byte before it, the handler writes nothing to the connection: the count is 0
  and the overflow flag is clear, which is the branch that only logs.
\<close>

theorem lone_newline_no_response:
  "response (Recv_byte 0x0A # rest) ws = Inr []"
  by (rule response_no_content) (simp add: is_terminator_def)

theorem lone_newline_no_response_witness:
  "response (Recv_byte 0x0A # []) [Sent 1] = Inr []"
  using lone_newline_no_response [of "[]" "[Sent 1]"] by simp

text \<open>
  C3 as stated expects a single \<^verbatim>\<open>'\n'\<close> in response to a lone \<^verbatim>\<open>'\n'\<close>; the handler
  sends none.
\<close>

theorem lone_newline_counterexample:
  "response [Recv_byte 0x0A] [Sent 1] \<noteq> Inr [0x0A]"
  using response_no_content [of "Recv_byte 0x0A" "[]" "[Sent 1]"]
  by (simp add: is_terminator_def)

section \<open>Read errors\<close>

text \<open>
  C4 (amended). A \<^verbatim>\<open>recv\<close> failure other than \<^verbatim>\<open>EINTR\<close>, before a terminator or
  end-of-stream is seen, ends the read loop exactly as end-of-stream at that point
  does, and the response is chosen from the accumulated state in the same way: nothing
  is written when no content byte had been accumulated; 1 to 20 accumulated bytes are
  echoed with a trailing \<^verbatim>\<open>'\n'\<close> (when the \<^verbatim>\<open>send\<close> calls accept them); with the
  overflow flag set the error literal is sent.
\<close>

theorem read_error_responds_like_eof:
  assumes "e \<noteq> EINTR" "\<forall>r\<in>set pre. keeps_reading r"
  shows "handle_conn (pre @ Recv_err e # rest) ws = handle_conn (pre @ Recv_eof # rest) ws \<and>
         response (Recv_err e # rest) ws = Inr [] \<and>
         ((\<forall>b\<in>set C. \<not> is_terminator b) \<and> C \<noteq> [] \<and> length C \<le> MAX_MSG_LEN \<and>
            length C \<le> k1 \<and> 1 \<le> k2 \<longrightarrow>
            response (map Recv_byte C @ Recv_err e # rest) (Sent k1 # Sent k2 # ws') = Inr (C @ [0x0A])) \<and>
         ((\<forall>b\<in>set C. \<not> is_terminator b) \<and> MAX_MSG_LEN < length C \<longrightarrow>
            response (map Recv_byte C @ Recv_err e # rest) (w # ws') =
              Inr (delivered w [0x45, 0x52, 0x52, 0x20, 0x74, 0x6F, 0x6F, 0x20, 0x6C, 0x6F, 0x6E, 0x67, 0x0A]))"
proof -
  have brk: "\<not> keeps_reading (Recv_err e)" using assms(1) by simp
  have "handle_conn (pre @ Recv_err e # rest) ws = handle_conn (pre @ Recv_eof # rest) ws"
    using assms(2) brk by (intro handle_conn_same_break) simp_all
  moreover have "response (Recv_err e # rest) ws = Inr []"
    using brk by (rule response_no_content)
  ultimately show ?thesis
    using brk
    by (simp add: response_echo response_overflow err_msg_bytes del: keeps_reading.simps)
qed

theorem read_error_responds_like_eof_witness:
  "handle_conn ([Recv_byte 0x61] @ Recv_err (Errno 12) # []) [Sent 1, Sent 1] =
     handle_conn ([Recv_byte 0x61] @ Recv_eof # []) [Sent 1, Sent 1] \<and>
   response (Recv_err (Errno 12) # []) [Sent 1, Sent 1] = Inr [] \<and>
   response (map Recv_byte [0x61] @ Recv_err (Errno 12) # []) (Sent 1 # Sent 1 # []) = Inr ([0x61] @ [0x0A]) \<and>
   response (map Recv_byte (replicate 21 0x61) @ Recv_err (Errno 12) # []) (Sent 13 # []) =
     Inr [0x45, 0x52, 0x52, 0x20, 0x74, 0x6F, 0x6F, 0x20, 0x6C, 0x6F, 0x6E, 0x67, 0x0A]"
  using read_error_responds_like_eof [of "Errno 12" "[Recv_byte 0x61]" "[]" "[Sent 1, Sent 1]" "[0x61]" 1 1 "[]" "Sent 13"]
    read_error_responds_like_eof [of "Errno 12" "[]" "[]" "[]" "replicate 21 0x61" 1 1 "[]" "Sent 13"]
  by (simp add: is_terminator_def MAX_MSG_LEN_def)

text \<open>
  C4 as stated says that nothing is written after such a failure however many bytes
  had been accumulated. After one content byte and a failed \<^verbatim>\<open>recv\<close> the handler still
  echoes.
\<close>

theorem read_error_counterexample:
  "response [Recv_byte 0x61, Recv_err (Errno 12)] [Sent 1, Sent 1] \<noteq> Inr []"
  using response_echo [of "[0x61]" "Recv_err (Errno 12)" 1 1 "[]" "[]"]
  by (simp add: is_terminator_def MAX_MSG_LEN_def)

section \<open>The bound on the buffer\<close>

text \<open>
  C5. For every input, every state the read loop passes through has a count of at most
  20 and a buffer holding exactly that many bytes, hence at most 20; and in such a
  state with the count at 20, a further content byte only sets the overflow flag: the
  buffer and the count stay as they are.
\<close>

theorem buffer_never_exceeds_bound:
  "\<forall>c\<in>set (loop_states rs conn_init).
     total_cnt c \<le> MAX_MSG_LEN \<and> stored (buf c) \<le> MAX_MSG_LEN \<and> stored (buf c) = total_cnt c \<and>
     (\<forall>ch. \<not> is_terminator ch \<and> total_cnt c = MAX_MSG_LEN \<longrightarrow>
        loop_body (Recv_byte ch) c = Inr (Continue (c\<lparr>too_long := True\<rparr>)))"
proof
  fix c assume "c \<in> set (loop_states rs conn_init)"
  from loop_states_bounded [OF this] show
    "total_cnt c \<le> MAX_MSG_LEN \<and> stored (buf c) \<le> MAX_MSG_LEN \<and> stored (buf c) = total_cnt c \<and>
     (\<forall>ch. \<not> is_terminator ch \<and> total_cnt c = MAX_MSG_LEN \<longrightarrow>
        loop_body (Recv_byte ch) c = Inr (Continue (c\<lparr>too_long := True\<rparr>)))"
    by (simp add: loop_body_at_bound del: loop_body.simps)
qed

theorem buffer_never_exceeds_bound_witness:
  "filled (replicate 20 0x61) True \<in> set (loop_states (map Recv_byte (replicate 22 0x61)) conn_init) \<and>
   total_cnt (filled (replicate 20 0x61) True) \<le> MAX_MSG_LEN \<and>
   stored (buf (filled (replicate 20 0x61) True)) \<le> MAX_MSG_LEN \<and>
   loop_body (Recv_byte 0x62) (filled (replicate 20 0x61) True) =
     Inr (Continue ((filled (replicate 20 0x61) True)\<lparr>too_long := True\<rparr>))"
proof -
  have "last (loop_states (map Recv_byte (replicate 22 0x61)) conn_init) = filled (replicate 20 0x61) True"
    using loop_states_content_last [of "replicate 22 0x61" "[]" False]
    by (simp add: conn_init_filled is_terminator_def MAX_MSG_LEN_def)
  with loop_states_last_mem [of "map Recv_byte (replicate 22 0x61)" conn_init]
  have mem: "filled (replicate 20 0x61) True \<in> set (loop_states (map Recv_byte (replicate 22 0x61)) conn_init)"
    by simp
  have nt: "\<not> is_terminator 0x62" by (simp add: is_terminator_def)
  have tot: "total_cnt (filled (replicate 20 0x61) True) = MAX_MSG_LEN"
    by (simp add: filled_def MAX_MSG_LEN_def)
  from buffer_never_exceeds_bound [of "map Recv_byte (replicate 22 0x61)"] mem nt tot
  show ?thesis by blast
qed

section \<open>End-of-stream in place of a terminator\<close>

text \<open>
  C6 (amended). For every content \<open>C\<close> without terminator bytes, the handler's outcome
  (final buffer, count and overflow flag, bytes written, input left unread) on
  \<open>C\<close> then end-of-stream is the same as on \<open>C\<close> then a terminator byte. Content of
  1 to 20 bytes is echoed with a trailing \<^verbatim>\<open>'\n'\<close>, content of more than 20 bytes
  yields the overflow error (when the \<^verbatim>\<open>send\<close> calls accept the bytes), and empty
  content yields no response on either stream.
\<close>

theorem eof_same_as_terminator:
  assumes "\<forall>b\<in>set C. \<not> is_terminator b" "is_terminator t"
  shows "handle_conn (map Recv_byte C @ Recv_eof # rest) ws =
           handle_conn (map Recv_byte C @ Recv_byte t # rest) ws \<and>
         (C \<noteq> [] \<and> length C \<le> MAX_MSG_LEN \<and> length C \<le> k1 \<and> 1 \<le> k2 \<longrightarrow>
            response (map Recv_byte C @ Recv_eof # rest) (Sent k1 # Sent k2 # ws') = Inr (C @ [0x0A])) \<and>
         (MAX_MSG_LEN < length C \<and> length err_msg \<le> k \<longrightarrow>
            response (map Recv_byte C @ Recv_eof # rest) (Sent k # ws') = Inr err_msg) \<and>
         (C = [] \<longrightarrow> response (map Recv_byte C @ Recv_eof # rest) ws = Inr [])"
proof -
  have "\<forall>r\<in>set (map Recv_byte C). keeps_reading r" using assms(1) by simp
  then have "handle_conn (map Recv_byte C @ Recv_eof # rest) ws =
             handle_conn (map Recv_byte C @ Recv_byte t # rest) ws"
    using assms(2) by (intro handle_conn_same_break) simp_all
  then show ?thesis
    using assms(1) by (simp add: response_echo response_overflow response_no_content)
qed

theorem eof_same_as_terminator_witness:
  "handle_conn (map Recv_byte [0x61, 0x62] @ Recv_eof # []) [Sent 2, Sent 1] =
     handle_conn (map Recv_byte [0x61, 0x62] @ Recv_byte 0x0D # []) [Sent 2, Sent 1] \<and>
   response (map Recv_byte [0x61, 0x62] @ Recv_eof # []) (Sent 2 # Sent 1 # []) = Inr ([0x61, 0x62] @ [0x0A]) \<and>
   response (map Recv_byte (replicate 21 0x61) @ Recv_eof # []) (Sent 13 # []) = Inr err_msg"
  using eof_same_as_terminator [of "[0x61, 0x62]" "0x0D" "[]" "[Sent 2, Sent 1]" 2 1 "[]" 13]
    eof_same_as_terminator [of "replicate 21 0x61" "0x0D" "[]" "[]" 2 1 "[]" 13]
  by (simp add: is_terminator_def MAX_MSG_LEN_def err_msg_def bytes_of_def)

text \<open>
  C6 as stated has every content of at most 20 bytes echoed with a trailing
  \<^verbatim>\<open>'\n'\<close>. For the empty content the two streams do agree, but on an empty response.
\<close>

theorem eof_empty_content_counterexample:
  "\<not> (response (map Recv_byte [] @ [Recv_eof]) [Sent 0, Sent 1] =
        response (map Recv_byte [] @ [Recv_byte 0x0A]) [Sent 0, Sent 1] \<and>
      response (map Recv_byte [] @ [Recv_eof]) [Sent 0, Sent 1] = Inr ([] @ [0x0A]))"
  using response_no_content [of Recv_eof "[]" "[Sent 0, Sent 1]"]
  by simp

section \<open>Draining up to the terminator\<close>

text \<open>
  C7. For every input stream in which only content bytes (and interrupted reads) come
  before the first terminator byte or end-of-stream, however many content bytes there
  are, the read loop returns having consumed exactly the input up to and including
  that terminator or end-of-stream: what is left unread is what came after it.
  Overflow does not stop the reading early, and the response is only chosen after the
  loop has returned.
\<close>

theorem reads_through_first_break:
  assumes "\<forall>r\<in>set pre. keeps_reading r"
    "r0 = Recv_eof \<or> (\<exists>t. is_terminator t \<and> r0 = Recv_byte t)"
  shows "(\<exists>c. read_loop (pre @ r0 # rest) conn_init = Inr (c, rest)) \<and>
         (\<forall>out. handle_conn (pre @ r0 # rest) ws = Inr out \<longrightarrow> unread out = rest)"
proof -
  from assms(2) have brk: "\<not> keeps_reading r0" by auto
  from read_loop_first_break [OF assms(1) brk, of "[]" rest False]
  obtain ys g where ys: "length ys \<le> MAX_MSG_LEN"
    and rl: "read_loop (pre @ r0 # rest) conn_init = Inr (filled ys g, rest)"
    by (auto simp add: conn_init_filled)
  from handle_conn_after_loop [OF rl ys, of ws]
  have "\<forall>out. handle_conn (pre @ r0 # rest) ws = Inr out \<longrightarrow> unread out = rest"
    by (auto split: sum.splits)
  with rl show ?thesis by blast
qed

theorem reads_through_first_break_witness:
  "(\<exists>c. read_loop (map Recv_byte (replicate 25 0x61) @ Recv_byte 0x0A # [Recv_byte 0x62])
          conn_init = Inr (c, [Recv_byte 0x62])) \<and>
   (\<exists>c. read_loop ([Recv_byte 0x61, Recv_err EINTR] @ Recv_eof # [Recv_byte 0x62])
          conn_init = Inr (c, [Recv_byte 0x62]))"
  using reads_through_first_break [of "map Recv_byte (replicate 25 0x61)" "Recv_byte 0x0A" "[Recv_byte 0x62]" "[]"]
    reads_through_first_break [of "[Recv_byte 0x61, Recv_err EINTR]" Recv_eof "[Recv_byte 0x62]" "[]"]
  by (simp add: is_terminator_def)

section \<open>Immediate end-of-stream\<close>

text \<open>
  C8. When the first \<^verbatim>\<open>recv\<close> reports end-of-stream, the handler returns having written
  nothing to the connection, whatever the \<^verbatim>\<open>send\<close> calls would have returned.
\<close>

theorem immediate_eof_silent:
  "response (Recv_eof # rest) ws = Inr []"
  by (rule response_no_content) simp

theorem immediate_eof_silent_witness:
  "response (Recv_eof # []) [Sent 13, Sent 1] = Inr []"
  using immediate_eof_silent [of "[]" "[Sent 13, Sent 1]"] by simp

section \<open>Interrupted reads\<close>

text \<open>
  C9. A \<^verbatim>\<open>recv\<close> that fails with \<^verbatim>\<open>EINTR\<close> makes the loop go round again with the
  buffer, the count and the overflow flag unchanged; the loop then behaves as if the
  interrupted read had not happened, at the start of the input or after any number of
  content bytes.
\<close>

theorem eintr_retry_keeps_state:
  "loop_body (Recv_err EINTR) c = Inr (Continue c) \<and>
   read_loop (Recv_err EINTR # rs) c = read_loop rs c \<and>
   ((\<forall>r\<in>set pre. keeps_reading r) \<longrightarrow>
      read_loop (pre @ Recv_err EINTR # rs) c = read_loop (pre @ rs) c)"
  by (simp add: read_loop_skip_eintr)

theorem eintr_retry_keeps_state_witness:
  "loop_body (Recv_err EINTR) (filled [0x61] False) = Inr (Continue (filled [0x61] False)) \<and>
   read_loop ([Recv_byte 0x61] @ Recv_err EINTR # [Recv_byte 0x62, Recv_eof]) conn_init =
   read_loop ([Recv_byte 0x61] @ [Recv_byte 0x62, Recv_eof]) conn_init"
  using eintr_retry_keeps_state [of "filled [0x61] False" "[]" "[]"]
    eintr_retry_keeps_state [of conn_init "[Recv_byte 0x62, Recv_eof]" "[Recv_byte 0x61]"]
  by (simp add: is_terminator_def)

section \<open>Memory safety of the buffer\<close>

text \<open>
  C10. For every input, no write to the 21-byte buffer is out of bounds: the read loop
  never ends in the out-of-bounds fault, and no content byte arriving in a state the
  loop passes through causes one; when the loop returns, the count is at most 20 and
  below the buffer's size, cell 20 has not been written by the loop (content goes to
  indices below 20 only), and the store of the NUL at index \<^verbatim>\<open>total\<close> succeeds. The
  handler as a whole can only fail to return by blocking in \<^verbatim>\<open>recv\<close> or \<^verbatim>\<open>send\<close>.
\<close>

theorem buffer_writes_in_bounds:
  "read_loop rs conn_init \<noteq> Inl OutOfBounds \<and>
   (\<forall>c rs'. read_loop rs conn_init = Inr (c, rs') \<longrightarrow>
      total_cnt c \<le> MAX_MSG_LEN \<and> total_cnt c < length (buf c) \<and> buf c ! MAX_MSG_LEN = None \<and>
      (\<exists>b. store (buf c) (total_cnt c) 0 = Inr b)) \<and>
   (\<forall>c\<in>set (loop_states rs conn_init). \<forall>ch.
      loop_body (Recv_byte ch) c \<noteq> Inl OutOfBounds) \<and>
   (\<forall>h. handle_conn rs ws = Inl h \<longrightarrow> h = Blocked)"
proof -
  from read_loop_filled [of "[]" rs False]
  consider "read_loop rs conn_init = Inl Blocked"
    | ys g rs' where "length ys \<le> MAX_MSG_LEN" "read_loop rs conn_init = Inr (filled ys g, rs')"
    by (auto simp add: conn_init_filled)
  then have loop: "read_loop rs conn_init \<noteq> Inl OutOfBounds \<and>
   (\<forall>c rs'. read_loop rs conn_init = Inr (c, rs') \<longrightarrow>
      total_cnt c \<le> MAX_MSG_LEN \<and> total_cnt c < length (buf c) \<and> buf c ! MAX_MSG_LEN = None \<and>
      (\<exists>b. store (buf c) (total_cnt c) 0 = Inr b)) \<and>
   (\<forall>h. handle_conn rs ws = Inl h \<longrightarrow> h = Blocked)"
  proof cases
    case 1
    then show ?thesis by (simp add: handle_conn_def)
  next
    case 2
    have "total_cnt (filled ys g) = length ys" by (simp add: filled_def)
    moreover have "length (buf (filled ys g)) = MAX_MSG_LEN + 1"
      using 2(1) by (simp add: filled_def)
    moreover have "\<forall>h. handle_conn rs ws = Inl h \<longrightarrow> h = Blocked"
      using handle_conn_after_loop [OF 2(2) 2(1), of ws] respond_closed_halt [of ys g ws]
      by (auto split: sum.splits)
    ultimately show ?thesis
      using 2 by (simp add: filled_last_cell store_def)
  qed
  have "\<forall>c\<in>set (loop_states rs conn_init). \<forall>ch. loop_body (Recv_byte ch) c \<noteq> Inl OutOfBounds"
  proof (intro ballI allI)
    fix c ch assume "c \<in> set (loop_states rs conn_init)"
    from loop_states_bounded [OF this]
    show "loop_body (Recv_byte ch) c \<noteq> Inl OutOfBounds"
      by (simp add: store_def)
  qed
  with loop show ?thesis by blast
qed

theorem buffer_writes_in_bounds_witness:
  "read_loop (map Recv_byte (replicate 30 0x61) @ [Recv_eof]) conn_init \<noteq> Inl OutOfBounds \<and>
   handle_conn (map Recv_byte (replicate 30 0x61) @ [Recv_eof]) [Sent 13] \<noteq> Inl OutOfBounds \<and>
   conn_init \<in> set (loop_states (map Recv_byte (replicate 30 0x61) @ [Recv_eof]) conn_init) \<and>
   loop_body (Recv_byte 0x61) conn_init \<noteq> Inl OutOfBounds"
proof -
  have mem: "conn_init \<in> set (loop_states (map Recv_byte (replicate 30 0x61) @ [Recv_eof]) conn_init)"
    by (rule loop_states_first_mem)
  from buffer_writes_in_bounds [of "map Recv_byte (replicate 30 0x61) @ [Recv_eof]" "[Sent 13]"] mem
  show ?thesis by blast
qed

end
